theory Spec2Isabelle
  imports Main
begin

section \<open>The browser script \<open>theblobapp/static/js/app.js\<close>\<close>

text \<open>
  The script registers four event listeners and keeps two globals.  Its listeners read
  their argument and the window, and otherwise only call functions: the ones of the
  platform (\<open>console.log\<close>, \<open>setInterval\<close>, \<open>socket.emit\<close>) and four functions whose
  bodies are not part of the file (\<open>loadMoreBlobs\<close>, \<open>updateFeed\<close>, \<open>debounce\<close>,
  \<open>handleSearch\<close>).  Each listener is therefore modelled as the list of calls it makes,
  in order; a separate layer executes the calls on a state of the page.
\<close>

subsection \<open>Data\<close>

datatype error = TypeError

text \<open>The argument of a \<open>new_blobs\<close> event: an object whose property \<open>blobs\<close> is a
  sequence of feed items, or is missing (\<open>None\<close>, JavaScript's \<open>undefined\<close>).\<close>

record 'b payload =
  blobs :: "'b list option"

datatype target = Window | Socket | Element string

datatype fn = HandleSearch

datatype callback = On_scroll | On_connect | On_new_blobs | Debounced fn nat

text \<open>A call made by a listener.  The argument of \<open>setInterval\<close> is the body of the
  arrow function passed to it, again a list of calls, and the period in milliseconds.\<close>

datatype 'b call =
    Call_loadMoreBlobs
  | Console_log string
  | Set_interval "'b call list" nat
  | Socket_emit string
  | Call_updateFeed "'b list"

type_synonym registration = "target \<times> string \<times> callback"

text \<open>A document is given by the identifiers of its elements.\<close>

type_synonym document = "string list"

subsection \<open>The listeners\<close>

text \<open>
  \<^verbatim>\<open>if ((window.innerHeight + window.scrollY) >= document.body.offsetHeight - 1000) {
      loadMoreBlobs(); }\<close>
  The three measures are taken as integers, whole pixels, on which JavaScript's
  arithmetic and comparison are exact.
\<close>

definition on_scroll :: "int \<Rightarrow> int \<Rightarrow> int \<Rightarrow> 'b call list" where
  "on_scroll innerHeight scrollY offsetHeight =
     (if innerHeight + scrollY \<ge> offsetHeight - 1000 then [Call_loadMoreBlobs] else [])"

text \<open>
  \<^verbatim>\<open>console.log('Connected to WebSocket');
  setInterval(() => { socket.emit('request_update'); }, 30000);\<close>
\<close>

definition on_connect :: "'b call list" where
  "on_connect =
     [Console_log ''Connected to WebSocket'',
      Set_interval [Socket_emit ''request_update''] 30000]"

text \<open>
  \<^verbatim>\<open>if (data.blobs.length > 0) { updateFeed(data.blobs); }\<close>
  Reading \<open>length\<close> of a missing \<open>blobs\<close> throws a TypeError.
\<close>

definition on_new_blobs :: "'b payload \<Rightarrow> error + 'b call list" where
  "on_new_blobs data =
     (case blobs data of
        None \<Rightarrow> Inl TypeError
      | Some bs \<Rightarrow> if length bs > 0 then Inr [Call_updateFeed bs] else Inr [])"

subsection \<open>The top level of the script\<close>

definition getElementById :: "document \<Rightarrow> string \<Rightarrow> target option" where
  "getElementById doc i = (if i \<in> set doc then Some (Element i) else None)"

text \<open>Calling a method on \<open>null\<close> throws; \<open>addEventListener\<close> on an element records the
  listener.\<close>

definition addEventListener :: "target option \<Rightarrow> string \<Rightarrow> callback \<Rightarrow> error + registration" where
  "addEventListener el ty cb =
     (case el of None \<Rightarrow> Inl TypeError | Some t \<Rightarrow> Inr (t, ty, cb))"

text \<open>Modelled from the spec: \<open>debounce\<close> is called by the script and defined nowhere in
  it.  The spec describes its result as a function that fires the wrapped function once
  the input has been quiet for the given time; the callback returned here stands for that
  function, and \<open>debounced\<close> below is what calling it does.\<close>

definition debounce :: "fn \<Rightarrow> nat \<Rightarrow> callback" where
  "debounce f wait = Debounced f wait"

text \<open>
  \<^verbatim>\<open>const socket = io();
  window.addEventListener('scroll', ...);
  socket.on('connect', ...);
  socket.on('new_blobs', ...);
  const searchInput = document.getElementById('search');
  if (searchInput) {
      searchInput.addEventListener('input', debounce(handleSearch, 500)); }\<close>
  The socket.io client is taken as loaded: \<open>io()\<close> returns the socket, the target
  \<open>Socket\<close>.  The result is the list of listeners registered, in order.
\<close>

definition app_js :: "document \<Rightarrow> error + registration list" where
  "app_js doc =
     (let on_window = [(Window, ''scroll'', On_scroll)];
          on_socket = [(Socket, ''connect'', On_connect), (Socket, ''new_blobs'', On_new_blobs)];
          searchInput = getElementById doc ''search''
      in if searchInput \<noteq> None
         then (case addEventListener searchInput ''input'' (debounce HandleSearch 500) of
                 Inl e \<Rightarrow> Inl e
               | Inr r \<Rightarrow> Inr (on_window @ on_socket @ [r]))
         else Inr (on_window @ on_socket))"

subsection \<open>The state of the page\<close>

datatype request = Fetch nat | Search string

text \<open>
  \<open>currentPage\<close> and \<open>loading\<close> are the script's globals.  The other fields are the
  environment the calls act on: the window's measures, a clock in milliseconds, the
  interval timers (body, period, next due time), the pending timeout of the debounced
  function, the text in the search box, the rendered feed, the pagination fetches in
  flight, the requests issued so far and the calls made so far.
\<close>

record 'b state =
  currentPage :: nat
  loading :: bool
  innerHeight :: int
  scrollY :: int
  offsetHeight :: int
  now :: nat
  intervals :: "('b call list \<times> nat \<times> nat) list"
  timeout :: "(fn \<times> nat) option"
  search_value :: string
  feed :: "'b list"
  in_flight :: "nat list"
  requests :: "request list"
  calls :: "'b call list"

text \<open>\<^verbatim>\<open>let currentPage = 1; let loading = false;\<close>\<close>

definition init_state :: "'b state" where
  "init_state =
     \<lparr>currentPage = 1, loading = False, innerHeight = 0, scrollY = 0, offsetHeight = 0,
      now = 0, intervals = [], timeout = None, search_value = [], feed = [],
      in_flight = [], requests = [], calls = []\<rparr>"

subsection \<open>The functions the script calls and does not define\<close>

text \<open>Modelled from the spec: \<open>loadMoreBlobs\<close> is missing from the script.  Spec, 4.2:
  if the Loading Flag is true the trigger is a no-op; otherwise set the flag and issue a
  fetch for the page identified by the Page Cursor.\<close>

definition loadMoreBlobs :: "'b state \<Rightarrow> 'b state" where
  "loadMoreBlobs s =
     (if loading s then s
      else s\<lparr>loading := True,
             in_flight := in_flight s @ [currentPage s],
             requests := requests s @ [Fetch (currentPage s)]\<rparr>)"

text \<open>Modelled from the spec: the completion of a pagination fetch, missing from the
  script.  Spec, 4.2: append the returned items to the feed, increment the Page Cursor,
  clear the Loading Flag.  Only a fetch in flight can complete.\<close>

definition fetch_done :: "'b list \<Rightarrow> 'b state \<Rightarrow> 'b state" where
  "fetch_done items s =
     (case in_flight s of
        [] \<Rightarrow> s
      | p # ps \<Rightarrow> s\<lparr>feed := feed s @ items, currentPage := currentPage s + 1,
                     loading := False, in_flight := ps\<rparr>)"

text \<open>Modelled from the spec: \<open>updateFeed\<close> is missing from the script.  Spec, 4.1 and 5:
  the received items are prepended to the rendered feed, in the order received.\<close>

definition updateFeed :: "'b list \<Rightarrow> 'b state \<Rightarrow> 'b state" where
  "updateFeed bs s = s\<lparr>feed := bs @ feed s\<rparr>"

text \<open>Modelled from the spec: \<open>handleSearch\<close> is missing from the script.  Spec, 4.3 and
  6: it issues a search request for the text present in the search box when it runs.\<close>

definition handleSearch :: "'b state \<Rightarrow> 'b state" where
  "handleSearch s = s\<lparr>requests := requests s @ [Search (search_value s)]\<rparr>"

fun call_fn :: "fn \<Rightarrow> 'b state \<Rightarrow> 'b state" where
  "call_fn HandleSearch s = handleSearch s"

text \<open>Modelled from the spec: a call of the function \<open>debounce\<close> returned.  Spec, 4.3 and
  5: each call cancels the pending timer and starts a new one, due after the wait.\<close>

definition debounced :: "fn \<Rightarrow> nat \<Rightarrow> 'b state \<Rightarrow> 'b state" where
  "debounced f wait s = s\<lparr>timeout := Some (f, now s + wait)\<rparr>"

subsection \<open>Executing calls\<close>

fun exec :: "'b call \<Rightarrow> 'b state \<Rightarrow> 'b state" where
  "exec Call_loadMoreBlobs s = loadMoreBlobs s"
| "exec (Console_log msg) s = s"
| "exec (Set_interval body period) s =
     s\<lparr>intervals := intervals s @ [(body, period, now s + period)]\<rparr>"
| "exec (Socket_emit name) s = s"
| "exec (Call_updateFeed bs) s = updateFeed bs s"

text \<open>Every call is recorded in \<open>calls\<close> and then executed.\<close>

definition perform :: "'b call \<Rightarrow> 'b state \<Rightarrow> 'b state" where
  "perform c s = exec c (s\<lparr>calls := calls s @ [c]\<rparr>)"

definition performs :: "'b call list \<Rightarrow> 'b state \<Rightarrow> 'b state" where
  "performs cs s = fold perform cs s"

subsection \<open>Timers\<close>

text \<open>An interval timer that is due runs its body and is due again one period later.\<close>

definition due_bodies :: "'b state \<Rightarrow> 'b call list" where
  "due_bodies s = concat [body. (body, period, due) \<leftarrow> intervals s, due \<le> now s]"

definition reschedule :: "nat \<Rightarrow> 'b call list \<times> nat \<times> nat \<Rightarrow> 'b call list \<times> nat \<times> nat" where
  "reschedule t = (\<lambda>(body, period, due).
     if due \<le> t then (body, period, due + period) else (body, period, due))"

definition run_intervals :: "'b state \<Rightarrow> 'b state" where
  "run_intervals s =
     performs (due_bodies s) (s\<lparr>intervals := map (reschedule (now s)) (intervals s)\<rparr>)"

definition run_timeout :: "'b state \<Rightarrow> 'b state" where
  "run_timeout s =
     (case timeout s of
        None \<Rightarrow> s
      | Some (f, due) \<Rightarrow> if due \<le> now s then call_fn f (s\<lparr>timeout := None\<rparr>) else s)"

text \<open>One millisecond passes; the timers that have become due run.\<close>

definition tick :: "'b state \<Rightarrow> 'b state" where
  "tick s = run_timeout (run_intervals (s\<lparr>now := now s + 1\<rparr>))"

subsection \<open>The event loop\<close>

text \<open>
  What happens to the page: the user scrolls (the window's measures at that moment are
  given), the socket connects, the server sends \<open>new_blobs\<close>, an event of some type
  occurs on the search box (leaving the given text in it), the pagination fetch in
  flight completes with a page of items, a millisecond passes.
\<close>

datatype 'b event =
    Scroll int int int
  | Connect
  | New_blobs "'b payload"
  | Dom string string
  | Fetch_done "'b list"
  | Tick

definition handlers :: "registration list \<Rightarrow> target \<Rightarrow> string \<Rightarrow> callback list" where
  "handlers regs tgt ty = [cb. (t, y, cb) \<leftarrow> regs, t = tgt \<and> y = ty]"

fun invoke :: "callback \<Rightarrow> 'b payload \<Rightarrow> 'b state \<Rightarrow> error + 'b state" where
  "invoke On_scroll _ s =
     Inr (performs (on_scroll (innerHeight s) (scrollY s) (offsetHeight s)) s)"
| "invoke On_connect _ s = Inr (performs on_connect s)"
| "invoke On_new_blobs data s =
     (case on_new_blobs data of Inl e \<Rightarrow> Inl e | Inr cs \<Rightarrow> Inr (performs cs s))"
| "invoke (Debounced f wait) _ s = Inr (debounced f wait s)"

text \<open>An exception thrown by a listener is reported by the browser and ends that
  listener only; the listener has changed nothing before it throws.\<close>

definition invoke_caught :: "'b payload \<Rightarrow> callback \<Rightarrow> 'b state \<Rightarrow> 'b state" where
  "invoke_caught arg cb s = (case invoke cb arg s of Inl e \<Rightarrow> s | Inr s' \<Rightarrow> s')"

definition dispatch :: "registration list \<Rightarrow> target \<Rightarrow> string \<Rightarrow> 'b payload \<Rightarrow> 'b state \<Rightarrow> 'b state" where
  "dispatch regs tgt ty arg s = fold (invoke_caught arg) (handlers regs tgt ty) s"

text \<open>The argument of an event that carries no feed items has no \<open>blobs\<close> property.\<close>

definition no_data :: "'b payload" where
  "no_data = \<lparr>blobs = None\<rparr>"

fun step :: "registration list \<Rightarrow> 'b event \<Rightarrow> 'b state \<Rightarrow> 'b state" where
  "step regs (Scroll ih sy oh) s =
     dispatch regs Window ''scroll'' no_data
       (s\<lparr>innerHeight := ih, scrollY := sy, offsetHeight := oh\<rparr>)"
| "step regs Connect s = dispatch regs Socket ''connect'' no_data s"
| "step regs (New_blobs data) s = dispatch regs Socket ''new_blobs'' data s"
| "step regs (Dom ty text) s =
     dispatch regs (Element ''search'') ty no_data (s\<lparr>search_value := text\<rparr>)"
| "step regs (Fetch_done items) s = fetch_done items s"
| "step regs Tick s = tick s"

definition run :: "registration list \<Rightarrow> 'b event list \<Rightarrow> 'b state \<Rightarrow> 'b state" where
  "run regs evs s = fold (step regs) evs s"

subsection \<open>Observations\<close>

definition fetches :: "'b state \<Rightarrow> nat list" where
  "fetches s = [p. Fetch p \<leftarrow> requests s]"

definition searches :: "'b state \<Rightarrow> string list" where
  "searches s = [q. Search q \<leftarrow> requests s]"

definition updates_sent :: "'b state \<Rightarrow> nat" where
  "updates_sent s = count_list (calls s) (Socket_emit ''request_update'')"

text \<open>The Loading Flag is set exactly while one fetch is in flight, and there is no
  second one.\<close>

definition single_flight :: "'b state \<Rightarrow> bool" where
  "single_flight s = (length (in_flight s) = (if loading s then 1 else 0))"

fun is_scroll :: "'b event \<Rightarrow> bool" where
  "is_scroll (Scroll ih sy oh) = True"
| "is_scroll _ = False"

text \<open>Typing: a first keystroke, then keystrokes each after a gap in milliseconds.  A
  keystroke is an \<open>input\<close> event on the search box that leaves the given text in it.\<close>

definition keystroke :: "string \<Rightarrow> 'b event" where
  "keystroke text = Dom ''input'' text"

definition wait :: "nat \<Rightarrow> 'b event list" where
  "wait d = replicate d Tick"

fun typing :: "string \<Rightarrow> (nat \<times> string) list \<Rightarrow> 'b event list" where
  "typing text [] = [keystroke text]"
| "typing text ((gap, text') # ks) = keystroke text # wait gap @ typing text' ks"

section \<open>What the script registers\<close>

lemma app_js_regs:
  "app_js doc =
     Inr ([(Window, ''scroll'', On_scroll), (Socket, ''connect'', On_connect),
           (Socket, ''new_blobs'', On_new_blobs)] @
          (if ''search'' \<in> set doc
           then [(Element ''search'', ''input'', Debounced HandleSearch 500)] else []))"
  by (simp add: app_js_def getElementById_def addEventListener_def debounce_def)

lemma handlers_scroll: "app_js doc = Inr regs \<Longrightarrow> handlers regs Window ''scroll'' = [On_scroll]"
  by (auto simp: app_js_regs handlers_def)

lemma handlers_connect: "app_js doc = Inr regs \<Longrightarrow> handlers regs Socket ''connect'' = [On_connect]"
  by (auto simp: app_js_regs handlers_def)

lemma handlers_new_blobs:
  "app_js doc = Inr regs \<Longrightarrow> handlers regs Socket ''new_blobs'' = [On_new_blobs]"
  by (auto simp: app_js_regs handlers_def)

lemma handlers_search:
  "app_js doc = Inr regs \<Longrightarrow>
   handlers regs (Element ''search'') ty =
     (if ''search'' \<in> set doc \<and> ty = ''input'' then [Debounced HandleSearch 500] else [])"
  by (auto simp: app_js_regs handlers_def)

lemma app_js_search_page:
  "app_js [''search''] =
     Inr [(Window, ''scroll'', On_scroll), (Socket, ''connect'', On_connect),
          (Socket, ''new_blobs'', On_new_blobs),
          (Element ''search'', ''input'', Debounced HandleSearch 500)]"
  by (simp add: app_js_regs)

section \<open>The calls a listener makes\<close>

lemma calls_exec: "calls (exec c s) = calls s"
  by (cases c) (simp_all add: loadMoreBlobs_def updateFeed_def)

lemma calls_perform: "calls (perform c s) = calls s @ [c]"
  by (simp add: perform_def calls_exec)

lemma calls_performs: "calls (performs cs s) = calls s @ cs"
  unfolding performs_def by (induction cs arbitrary: s) (simp_all add: calls_perform)

text \<open>
  C2.  On every scroll event the listener calls \<open>loadMoreBlobs\<close> exactly when
  \<open>innerHeight + scrollY \<ge> offsetHeight - 1000\<close> holds for the window's measures at that
  moment: the calls made so far grow by that one call when the condition holds and do
  not grow otherwise.
\<close>

theorem scroll_invokes_loadMoreBlobs:
  fixes s :: "'b state"
  assumes "app_js doc = Inr regs"
  shows "(Call_loadMoreBlobs \<in> set (on_scroll ih sy oh :: 'b call list) \<longleftrightarrow>
            ih + sy \<ge> oh - 1000) \<and>
         calls (step regs (Scroll ih sy oh) s) =
           calls s @ (if ih + sy \<ge> oh - 1000 then [Call_loadMoreBlobs] else [])"
  using assms
  by (simp add: dispatch_def handlers_scroll invoke_caught_def calls_performs on_scroll_def)

theorem scroll_invokes_loadMoreBlobs_witness:
  "app_js [''search''] =
     Inr [(Window, ''scroll'', On_scroll), (Socket, ''connect'', On_connect),
          (Socket, ''new_blobs'', On_new_blobs),
          (Element ''search'', ''input'', Debounced HandleSearch 500)] \<and>
   calls (step [(Window, ''scroll'', On_scroll), (Socket, ''connect'', On_connect),
                (Socket, ''new_blobs'', On_new_blobs),
                (Element ''search'', ''input'', Debounced HandleSearch 500)]
            (Scroll 800 200 2000) (init_state :: nat state)) = [Call_loadMoreBlobs] \<and>
   calls (step [(Window, ''scroll'', On_scroll), (Socket, ''connect'', On_connect),
                (Socket, ''new_blobs'', On_new_blobs),
                (Element ''search'', ''input'', Debounced HandleSearch 500)]
            (Scroll 800 199 2000) (init_state :: nat state)) = []"
proof -
  have c: "calls (init_state :: nat state) = []" by (simp add: init_state_def)
  from app_js_search_page c
    scroll_invokes_loadMoreBlobs [OF app_js_search_page, of 800 200 2000 "init_state :: nat state"]
    scroll_invokes_loadMoreBlobs [OF app_js_search_page, of 800 199 2000 "init_state :: nat state"]
  show ?thesis by simp
qed

text \<open>
  C4.  A \<open>new_blobs\<close> event whose \<open>blobs\<close> is the empty sequence: the listener returns
  normally having made no call, so \<open>updateFeed\<close> is not invoked, and the page is left
  exactly as it was.
\<close>

theorem empty_new_blobs_is_noop:
  assumes "app_js doc = Inr regs" and "blobs data = Some []"
  shows "on_new_blobs data = Inr [] \<and> step regs (New_blobs data) s = s"
  using assms
  by (simp add: on_new_blobs_def dispatch_def handlers_new_blobs invoke_caught_def performs_def)

theorem empty_new_blobs_is_noop_witness:
  "app_js [''search''] =
     Inr [(Window, ''scroll'', On_scroll), (Socket, ''connect'', On_connect),
          (Socket, ''new_blobs'', On_new_blobs),
          (Element ''search'', ''input'', Debounced HandleSearch 500)] \<and>
   blobs \<lparr>blobs = Some ([] :: nat list)\<rparr> = Some [] \<and>
   on_new_blobs \<lparr>blobs = Some ([] :: nat list)\<rparr> = Inr [] \<and>
   step [(Window, ''scroll'', On_scroll), (Socket, ''connect'', On_connect),
         (Socket, ''new_blobs'', On_new_blobs),
         (Element ''search'', ''input'', Debounced HandleSearch 500)]
     (New_blobs \<lparr>blobs = Some []\<rparr>) (init_state :: nat state) = init_state"
  using app_js_search_page
    empty_new_blobs_is_noop [OF app_js_search_page, of "\<lparr>blobs = Some ([] :: nat list)\<rparr>" init_state]
  by simp

text \<open>
  C5.  A \<open>new_blobs\<close> event carrying a non-empty sequence: the listener makes exactly one
  call, \<open>updateFeed\<close> with that very sequence, and the items then stand at the head of
  the rendered feed in the order received.
\<close>

theorem new_blobs_updates_feed:
  assumes "app_js doc = Inr regs" and "blobs data = Some bs" and "bs \<noteq> []"
  shows "on_new_blobs data = Inr [Call_updateFeed bs] \<and>
         calls (step regs (New_blobs data) s) = calls s @ [Call_updateFeed bs] \<and>
         feed (step regs (New_blobs data) s) = bs @ feed s"
  using assms
  by (simp add: on_new_blobs_def dispatch_def handlers_new_blobs invoke_caught_def performs_def
      perform_def updateFeed_def)

theorem new_blobs_updates_feed_witness:
  "app_js [''search''] =
     Inr [(Window, ''scroll'', On_scroll), (Socket, ''connect'', On_connect),
          (Socket, ''new_blobs'', On_new_blobs),
          (Element ''search'', ''input'', Debounced HandleSearch 500)] \<and>
   blobs \<lparr>blobs = Some [1 :: nat, 2]\<rparr> = Some [1, 2] \<and> [1 :: nat, 2] \<noteq> [] \<and>
   on_new_blobs \<lparr>blobs = Some [1 :: nat, 2]\<rparr> = Inr [Call_updateFeed [1, 2]] \<and>
   feed (step [(Window, ''scroll'', On_scroll), (Socket, ''connect'', On_connect),
               (Socket, ''new_blobs'', On_new_blobs),
               (Element ''search'', ''input'', Debounced HandleSearch 500)]
           (New_blobs \<lparr>blobs = Some [1, 2]\<rparr>) (init_state\<lparr>feed := [3 :: nat]\<rparr>)) = [1, 2, 3]"
  using app_js_search_page
    new_blobs_updates_feed [OF app_js_search_page, of "\<lparr>blobs = Some [1 :: nat, 2]\<rparr>" "[1, 2]"
      "init_state\<lparr>feed := [3]\<rparr>"]
  by simp

text \<open>
  C8.  When the document has no element \<open>search\<close>, the script runs to its end without
  an error and registers the scroll and socket listeners only: no listener of any event
  type is registered on a search element.
\<close>

theorem search_absent_no_listener:
  assumes "''search'' \<notin> set doc"
  shows "app_js doc =
           Inr [(Window, ''scroll'', On_scroll), (Socket, ''connect'', On_connect),
                (Socket, ''new_blobs'', On_new_blobs)] \<and>
         handlers [(Window, ''scroll'', On_scroll), (Socket, ''connect'', On_connect),
                   (Socket, ''new_blobs'', On_new_blobs)] (Element ''search'') ty = []"
  using assms by (simp add: app_js_regs handlers_def)

theorem search_absent_no_listener_witness:
  "''search'' \<notin> set [''feed''] \<and>
   app_js [''feed''] =
     Inr [(Window, ''scroll'', On_scroll), (Socket, ''connect'', On_connect),
          (Socket, ''new_blobs'', On_new_blobs)]"
  using search_absent_no_listener [of "[''feed'']"] by simp

text \<open>
  C10.  The \<open>new_blobs\<close> listener throws a TypeError exactly when the payload has no
  \<open>blobs\<close> property; with a sequence there, empty or not, it returns normally.
\<close>

theorem new_blobs_throws_iff_blobs_absent:
  "(on_new_blobs data = Inl TypeError \<longleftrightarrow> blobs data = None) \<and>
   (invoke On_new_blobs data s = Inl TypeError \<longleftrightarrow> blobs data = None)"
  by (simp add: on_new_blobs_def split: option.split sum.split)

text \<open>
  C9, as stated: the debounced handler is registered for the \<open>change\<close> event type on the
  search element.  It is not: on a page that has the element, the script's one listener on
  it is registered for \<open>input\<close> and none for \<open>change\<close>.
\<close>

theorem search_listener_not_on_change:
  "app_js [''search''] =
     Inr [(Window, ''scroll'', On_scroll), (Socket, ''connect'', On_connect),
          (Socket, ''new_blobs'', On_new_blobs),
          (Element ''search'', ''input'', Debounced HandleSearch 500)] \<and>
   handlers [(Window, ''scroll'', On_scroll), (Socket, ''connect'', On_connect),
             (Socket, ''new_blobs'', On_new_blobs),
             (Element ''search'', ''input'', Debounced HandleSearch 500)]
     (Element ''search'') ''change'' = [] \<and>
   handlers [(Window, ''scroll'', On_scroll), (Socket, ''connect'', On_connect),
             (Socket, ''new_blobs'', On_new_blobs),
             (Element ''search'', ''input'', Debounced HandleSearch 500)]
     (Element ''search'') ''input'' = [Debounced HandleSearch 500]"
  by (simp add: app_js_regs handlers_def)

text \<open>
  C9, amended.  When the document has the element \<open>search\<close>, the script registers the
  debounced handler \<open>debounce(handleSearch, 500)\<close> on it for the \<open>input\<close> event type, and
  registers nothing on it for any other event type.
\<close>

theorem search_listener_on_input:
  assumes "''search'' \<in> set doc"
  shows "app_js doc =
           Inr [(Window, ''scroll'', On_scroll), (Socket, ''connect'', On_connect),
                (Socket, ''new_blobs'', On_new_blobs),
                (Element ''search'', ''input'', debounce HandleSearch 500)] \<and>
         handlers [(Window, ''scroll'', On_scroll), (Socket, ''connect'', On_connect),
                   (Socket, ''new_blobs'', On_new_blobs),
                   (Element ''search'', ''input'', debounce HandleSearch 500)]
           (Element ''search'') ty =
           (if ty = ''input'' then [debounce HandleSearch 500] else [])"
  using assms by (simp add: app_js_regs handlers_def debounce_def)

theorem search_listener_on_input_witness:
  "''search'' \<in> set [''feed'', ''search''] \<and>
   app_js [''feed'', ''search''] =
     Inr [(Window, ''scroll'', On_scroll), (Socket, ''connect'', On_connect),
          (Socket, ''new_blobs'', On_new_blobs),
          (Element ''search'', ''input'', debounce HandleSearch 500)]"
  using search_listener_on_input [of "[''feed'', ''search'']"] by simp

section \<open>Running events\<close>

lemma fold_preserves:
  assumes "\<And>x s. P s \<Longrightarrow> P (f x s)" and "P s"
  shows "P (fold f xs s)"
  using assms(2) by (induction xs arbitrary: s) (simp_all add: assms(1))

lemma run_append: "run regs (xs @ ys) s = run regs ys (run regs xs s)"
  by (simp add: run_def)

lemma run_Cons: "run regs (e # evs) s = run regs evs (step regs e s)"
  by (simp add: run_def)

lemma run_Nil: "run regs [] s = s"
  by (simp add: run_def)

lemma perform_while_loading:
  "loading s \<and> requests s = r \<and> in_flight s = fl \<Longrightarrow>
   loading (perform c s) \<and> requests (perform c s) = r \<and> in_flight (perform c s) = fl"
  by (cases c) (auto simp: perform_def loadMoreBlobs_def updateFeed_def)

lemma performs_while_loading:
  "loading s \<and> requests s = r \<and> in_flight s = fl \<Longrightarrow>
   loading (performs cs s) \<and> requests (performs cs s) = r \<and> in_flight (performs cs s) = fl"
  unfolding performs_def
  by (rule fold_preserves [where P = "\<lambda>s. loading s \<and> requests s = r \<and> in_flight s = fl"])
    (simp_all add: perform_while_loading)

lemma invoke_caught_while_loading:
  "loading s \<and> requests s = r \<and> in_flight s = fl \<Longrightarrow>
   loading (invoke_caught arg cb s) \<and> requests (invoke_caught arg cb s) = r \<and>
   in_flight (invoke_caught arg cb s) = fl"
  by (cases cb)
    (auto simp: invoke_caught_def performs_while_loading debounced_def split: sum.split)

lemma dispatch_while_loading:
  "loading s \<and> requests s = r \<and> in_flight s = fl \<Longrightarrow>
   loading (dispatch regs tgt ty arg s) \<and> requests (dispatch regs tgt ty arg s) = r \<and>
   in_flight (dispatch regs tgt ty arg s) = fl"
  unfolding dispatch_def
  by (rule fold_preserves [where P = "\<lambda>s. loading s \<and> requests s = r \<and> in_flight s = fl"])
    (simp_all add: invoke_caught_while_loading)

lemma scroll_while_loading:
  "is_scroll e \<Longrightarrow> loading s \<and> requests s = r \<and> in_flight s = fl \<Longrightarrow>
   loading (step regs e s) \<and> requests (step regs e s) = r \<and> in_flight (step regs e s) = fl"
  by (cases e) (simp_all add: dispatch_while_loading)

lemma scrolls_while_loading:
  "list_all is_scroll evs \<Longrightarrow> loading s \<and> requests s = r \<and> in_flight s = fl \<Longrightarrow>
   loading (run regs evs s) \<and> requests (run regs evs s) = r \<and> in_flight (run regs evs s) = fl"
proof (induction evs arbitrary: s)
  case Nil
  then show ?case by (simp add: run_Nil)
next
  case (Cons e evs)
  from Cons.prems have "is_scroll e" "list_all is_scroll evs" by simp_all
  from scroll_while_loading [OF this(1) Cons.prems(2)] Cons.IH [OF this(2)]
  show ?case by (simp add: run_Cons)
qed

lemma call_fn_eq: "call_fn f s = handleSearch s"
  by (cases f) simp

lemma single_flight_perform: "single_flight s \<Longrightarrow> single_flight (perform c s)"
  by (cases c) (auto simp: single_flight_def perform_def loadMoreBlobs_def updateFeed_def)

lemma single_flight_performs: "single_flight s \<Longrightarrow> single_flight (performs cs s)"
  unfolding performs_def by (rule fold_preserves) (simp_all add: single_flight_perform)

lemma single_flight_invoke_caught: "single_flight s \<Longrightarrow> single_flight (invoke_caught arg cb s)"
  by (cases cb)
    (auto simp: invoke_caught_def single_flight_performs split: sum.split,
      simp add: single_flight_def debounced_def)

lemma single_flight_dispatch: "single_flight s \<Longrightarrow> single_flight (dispatch regs tgt ty arg s)"
  unfolding dispatch_def by (rule fold_preserves) (simp_all add: single_flight_invoke_caught)

lemma single_flight_fetch_done: "single_flight s \<Longrightarrow> single_flight (fetch_done items s)"
  by (auto simp: single_flight_def fetch_done_def split: list.split if_splits)

lemma single_flight_tick: "single_flight s \<Longrightarrow> single_flight (tick s)"
proof -
  assume a: "single_flight s"
  have 1: "single_flight (s\<lparr>now := now s + 1\<rparr>)" using a by (simp add: single_flight_def)
  have 2: "single_flight (run_intervals t)" if "single_flight t" for t :: "'b state"
    unfolding run_intervals_def using that
    by (intro single_flight_performs) (simp add: single_flight_def)
  have 3: "single_flight (run_timeout t)" if "single_flight t" for t :: "'b state"
    using that
    by (auto simp: run_timeout_def single_flight_def handleSearch_def call_fn_eq
        split: option.split prod.split if_splits)
  show ?thesis unfolding tick_def by (intro 3 2 1)
qed

lemma single_flight_step: "single_flight s \<Longrightarrow> single_flight (step regs e s)"
  by (cases e)
    (simp_all add: single_flight_dispatch single_flight_fetch_done single_flight_tick,
      (rule single_flight_dispatch, simp add: single_flight_def)+)

lemma single_flight_run: "single_flight s \<Longrightarrow> single_flight (run regs evs s)"
  unfolding run_def by (rule fold_preserves) (simp_all add: single_flight_step)

lemma single_flight_init: "single_flight init_state"
  by (simp add: single_flight_def init_state_def)

text \<open>
  C1.  While the Loading Flag is set, no sequence of scroll events issues a pagination
  fetch: the fetches issued and the fetches in flight stay as they were and the flag stays
  set.  And whatever events have happened since the page was loaded, at most one
  pagination fetch is in flight.
\<close>

theorem no_overlapping_fetches:
  fixes s :: "'b state"
  assumes "loading s" and "list_all is_scroll scrolls"
  shows "fetches (run regs scrolls s) = fetches s \<and>
         in_flight (run regs scrolls s) = in_flight s \<and>
         loading (run regs scrolls s) \<and>
         length (in_flight (run regs evs (init_state :: 'b state))) \<le> 1"
proof -
  from scrolls_while_loading [OF assms(2), of s "requests s" "in_flight s" regs] assms(1)
  have "requests (run regs scrolls s) = requests s" "in_flight (run regs scrolls s) = in_flight s"
    "loading (run regs scrolls s)" by simp_all
  moreover have "single_flight (run regs evs (init_state :: 'b state))"
    by (rule single_flight_run [OF single_flight_init])
  then have "length (in_flight (run regs evs (init_state :: 'b state))) \<le> 1"
    by (simp add: single_flight_def split: if_splits)
  ultimately show ?thesis by (simp add: fetches_def)
qed

theorem no_overlapping_fetches_witness:
  "loading (run [(Window, ''scroll'', On_scroll), (Socket, ''connect'', On_connect),
                 (Socket, ''new_blobs'', On_new_blobs),
                 (Element ''search'', ''input'', Debounced HandleSearch 500)]
             [Scroll 800 0 1500] (init_state :: nat state)) \<and>
   list_all is_scroll [Scroll 800 10 1500, Scroll 800 20 1500 :: nat event] \<and>
   fetches (run [(Window, ''scroll'', On_scroll), (Socket, ''connect'', On_connect),
                 (Socket, ''new_blobs'', On_new_blobs),
                 (Element ''search'', ''input'', Debounced HandleSearch 500)]
              [Scroll 800 10 1500, Scroll 800 20 1500]
              (run [(Window, ''scroll'', On_scroll), (Socket, ''connect'', On_connect),
                    (Socket, ''new_blobs'', On_new_blobs),
                    (Element ''search'', ''input'', Debounced HandleSearch 500)]
                 [Scroll 800 0 1500] (init_state :: nat state))) = [1] \<and>
   length (in_flight
     (run [(Window, ''scroll'', On_scroll), (Socket, ''connect'', On_connect),
           (Socket, ''new_blobs'', On_new_blobs),
           (Element ''search'', ''input'', Debounced HandleSearch 500)]
        [Scroll 800 0 1500, Scroll 800 10 1500] (init_state :: nat state))) \<le> 1"
proof -
  let ?regs = "[(Window, ''scroll'', On_scroll), (Socket, ''connect'', On_connect),
                (Socket, ''new_blobs'', On_new_blobs),
                (Element ''search'', ''input'', Debounced HandleSearch 500)]"
  let ?s = "run ?regs [Scroll 800 0 1500] (init_state :: nat state)"
  have l: "loading ?s"
    by (simp add: run_def dispatch_def handlers_def invoke_caught_def performs_def perform_def
        on_scroll_def loadMoreBlobs_def init_state_def)
  have f: "fetches ?s = [1]"
    by (simp add: run_def dispatch_def handlers_def invoke_caught_def performs_def perform_def
        on_scroll_def loadMoreBlobs_def init_state_def fetches_def)
  have sc: "list_all is_scroll [Scroll 800 10 1500, Scroll 800 20 1500 :: nat event]"
    by simp
  from no_overlapping_fetches [OF l sc, where regs = ?regs
      and evs = "[Scroll 800 0 1500, Scroll 800 10 1500]"] l sc f
  show ?thesis by simp
qed

section \<open>The interval timer\<close>

lemma run_wait_Suc: "run regs (wait (Suc d)) s = tick (run regs (wait d) s)"
proof -
  have "wait (Suc d) = (wait d :: 'a event list) @ [Tick]"
    by (simp add: wait_def replicate_append_same)
  then show ?thesis by (simp add: run_append run_Cons run_Nil)
qed

lemma run_wait_0: "run regs (wait 0) s = s"
  by (simp add: wait_def run_Nil)

lemma run_timeout_clock:
  "now (run_timeout t) = now t" "intervals (run_timeout t) = intervals t"
  "calls (run_timeout t) = calls t"
  by (simp_all add: run_timeout_def call_fn_eq handleSearch_def split: option.split prod.split)

lemma interval_arith:
  assumes "0 < (p::nat)"
  shows "p * (d div p + 1) \<le> Suc d \<longleftrightarrow> Suc d mod p = 0"
    and "Suc d div p = (if Suc d mod p = 0 then d div p + 1 else d div p)"
proof -
  show 2: "Suc d div p = (if Suc d mod p = 0 then d div p + 1 else d div p)"
    by (simp add: div_Suc)
  show "p * (d div p + 1) \<le> Suc d \<longleftrightarrow> Suc d mod p = 0"
  proof
    assume "Suc d mod p = 0"
    then have "Suc d = p * (Suc d div p)" by auto
    with 2 \<open>Suc d mod p = 0\<close> show "p * (d div p + 1) \<le> Suc d" by simp
  next
    assume a: "p * (d div p + 1) \<le> Suc d"
    define q r where "q = d div p" and "r = d mod p"
    have d: "d = p * q + r" and r: "r < p" using assms by (simp_all add: q_def r_def)
    from a have "p * q + p \<le> Suc (p * q + r)" unfolding q_def [symmetric] d [symmetric] by simp
    with r have "Suc (d mod p) = p" unfolding r_def by simp
    then show "Suc d mod p = 0" by (simp add: mod_Suc)
  qed
qed

lemma tick_single_interval:
  assumes "intervals t = [([Socket_emit name], p, due)]"
  shows "now (tick t) = now t + 1"
    and "intervals (tick t) = [([Socket_emit name], p, if due \<le> now t + 1 then due + p else due)]"
    and "calls (tick t) = calls t @ (if due \<le> now t + 1 then [Socket_emit name] else [])"
  using assms
  by (simp_all add: tick_def run_timeout_clock run_intervals_def due_bodies_def reschedule_def
      performs_def perform_def)

lemma connect_then_wait:
  assumes "intervals s = []" and "handlers regs Socket ''connect'' = [On_connect]"
  shows "now (run regs (Connect # wait d) s) = now s + d \<and>
         intervals (run regs (Connect # wait d) s) =
           [([Socket_emit ''request_update''], 30000, now s + 30000 * (d div 30000 + 1))] \<and>
         updates_sent (run regs (Connect # wait d) s) = updates_sent s + d div 30000"
proof (induction d)
  case 0
  show ?case using assms
    by (simp add: run_Cons run_wait_0 dispatch_def invoke_caught_def performs_def perform_def
        on_connect_def updates_sent_def)
next
  case (Suc d)
  let ?t = "run regs (Connect # wait d) s"
  have run: "run regs (Connect # wait (Suc d)) s = tick ?t"
    by (simp add: run_Cons run_wait_Suc)
  from Suc have t: "now ?t = now s + d"
    "intervals ?t = [([Socket_emit ''request_update''], 30000, now s + 30000 * (d div 30000 + 1))]"
    "updates_sent ?t = updates_sent s + d div 30000" by simp_all
  have due: "now s + 30000 * (d div 30000 + 1) \<le> now ?t + 1 \<longleftrightarrow> Suc d mod 30000 = 0"
    using interval_arith(1) [of 30000 d] t(1) by simp
  note tk = tick_single_interval [OF t(2)]
  show ?case
  proof (cases "Suc d mod 30000 = 0")
    case True
    then show ?thesis
      using tk due t interval_arith(2) [of 30000 d]
      by (simp add: run updates_sent_def)
  next
    case False
    then show ?thesis using tk due t interval_arith(2) [of 30000 d]
      by (simp add: run updates_sent_def)
  qed
qed

text \<open>
  C3.  The socket connects while no interval timer is running, and then only time
  passes.  After 30000 milliseconds exactly one \<open>request_update\<close> has been emitted since
  the connection, after 60000 exactly two, and after \<open>d\<close> milliseconds \<open>d div 30000\<close>: the
  timer is recurring, with a fixed period of 30 seconds.
\<close>

theorem request_update_every_30_seconds:
  assumes "app_js doc = Inr regs" and "intervals s = []"
  shows "updates_sent (run regs (Connect # wait 30000) s) = updates_sent s + 1 \<and>
         updates_sent (run regs (Connect # wait 60000) s) = updates_sent s + 2 \<and>
         updates_sent (run regs (Connect # wait d) s) = updates_sent s + d div 30000"
  using connect_then_wait [OF assms(2) handlers_connect [OF assms(1)], of 30000]
    connect_then_wait [OF assms(2) handlers_connect [OF assms(1)], of 60000]
    connect_then_wait [OF assms(2) handlers_connect [OF assms(1)], of d]
  by simp

theorem request_update_every_30_seconds_witness:
  "app_js [''search''] =
     Inr [(Window, ''scroll'', On_scroll), (Socket, ''connect'', On_connect),
          (Socket, ''new_blobs'', On_new_blobs),
          (Element ''search'', ''input'', Debounced HandleSearch 500)] \<and>
   intervals (init_state :: nat state) = [] \<and>
   updates_sent (run [(Window, ''scroll'', On_scroll), (Socket, ''connect'', On_connect),
                      (Socket, ''new_blobs'', On_new_blobs),
                      (Element ''search'', ''input'', Debounced HandleSearch 500)]
                   (Connect # wait 29999) (init_state :: nat state)) = 0 \<and>
   updates_sent (run [(Window, ''scroll'', On_scroll), (Socket, ''connect'', On_connect),
                      (Socket, ''new_blobs'', On_new_blobs),
                      (Element ''search'', ''input'', Debounced HandleSearch 500)]
                   (Connect # wait 30000) (init_state :: nat state)) = 1 \<and>
   updates_sent (run [(Window, ''scroll'', On_scroll), (Socket, ''connect'', On_connect),
                      (Socket, ''new_blobs'', On_new_blobs),
                      (Element ''search'', ''input'', Debounced HandleSearch 500)]
                   (Connect # wait 60000) (init_state :: nat state)) = 2"
proof -
  have i: "intervals (init_state :: nat state) = []" by (simp add: init_state_def)
  have u: "updates_sent (init_state :: nat state) = 0"
    by (simp add: updates_sent_def init_state_def)
  from request_update_every_30_seconds [OF app_js_search_page i, of 29999] app_js_search_page i u
  show ?thesis by simp
qed

section \<open>The debounced search\<close>

lemma searches_append: "searches (s\<lparr>requests := requests s @ [r]\<rparr>) =
   searches s @ (case r of Search q \<Rightarrow> [q] | Fetch p \<Rightarrow> [])"
  by (simp add: searches_def split: request.split)

lemma searches_upd:
  "searches (s\<lparr>calls := a\<rparr>) = searches s"
  "searches (s\<lparr>intervals := b\<rparr>) = searches s"
  "searches (s\<lparr>now := c\<rparr>) = searches s"
  "searches (s\<lparr>timeout := d\<rparr>) = searches s"
  "searches (s\<lparr>search_value := e\<rparr>) = searches s"
  "searches (s\<lparr>feed := f\<rparr>) = searches s"
  by (simp_all add: searches_def)

lemma handleSearch_view:
  "now (handleSearch s) = now s" "timeout (handleSearch s) = timeout s"
  "search_value (handleSearch s) = search_value s"
  "searches (handleSearch s) = searches s @ [search_value s]"
  by (simp_all add: handleSearch_def searches_def)

lemma exec_search_view:
  "now (exec c s) = now s" "timeout (exec c s) = timeout s"
  "search_value (exec c s) = search_value s" "searches (exec c s) = searches s"
  by (cases c; simp add: loadMoreBlobs_def updateFeed_def searches_def)+

lemma perform_search_view:
  "now (perform c s) = now s" "timeout (perform c s) = timeout s"
  "search_value (perform c s) = search_value s" "searches (perform c s) = searches s"
  by (simp_all add: perform_def exec_search_view searches_upd)

lemma performs_search_view:
  "now (performs cs s) = now s \<and> timeout (performs cs s) = timeout s \<and>
   search_value (performs cs s) = search_value s \<and> searches (performs cs s) = searches s"
  unfolding performs_def
  by (rule fold_preserves [where P = "\<lambda>t. now t = now s \<and> timeout t = timeout s \<and>
        search_value t = search_value s \<and> searches t = searches s"])
    (simp_all add: perform_search_view)

lemma run_intervals_search_view:
  "now (run_intervals s) = now s" "timeout (run_intervals s) = timeout s"
  "search_value (run_intervals s) = search_value s" "searches (run_intervals s) = searches s"
  by (simp_all add: run_intervals_def performs_search_view searches_upd)

lemma tick_pending:
  assumes "timeout s = Some (f, due)"
  shows "now (tick s) = now s + 1" and "search_value (tick s) = search_value s"
    and "timeout (tick s) = (if due \<le> now s + 1 then None else Some (f, due))"
    and "searches (tick s) = searches s @ (if due \<le> now s + 1 then [search_value s] else [])"
proof -
  let ?t = "run_intervals (s\<lparr>now := now s + 1\<rparr>)"
  have t: "now ?t = now s + 1" "timeout ?t = Some (f, due)" "search_value ?t = search_value s"
    "searches ?t = searches s"
    using assms by (simp_all add: run_intervals_search_view searches_upd)
  show "now (tick s) = now s + 1" "search_value (tick s) = search_value s"
    "timeout (tick s) = (if due \<le> now s + 1 then None else Some (f, due))"
    "searches (tick s) = searches s @ (if due \<le> now s + 1 then [search_value s] else [])"
    unfolding tick_def using t
    by (simp_all add: run_timeout_def call_fn_eq handleSearch_view searches_upd)
qed

lemma tick_idle:
  assumes "timeout s = None"
  shows "now (tick s) = now s + 1" and "search_value (tick s) = search_value s"
    and "timeout (tick s) = None" and "searches (tick s) = searches s"
  unfolding tick_def using assms
  by (simp_all add: run_timeout_def run_intervals_search_view searches_upd)

lemma wait_pending:
  assumes "timeout s = Some (f, due)" and "now s < due"
  shows "now (run regs (wait g) s) = now s + g \<and>
         search_value (run regs (wait g) s) = search_value s \<and>
         timeout (run regs (wait g) s) = (if due \<le> now s + g then None else Some (f, due)) \<and>
         searches (run regs (wait g) s) =
           searches s @ (if due \<le> now s + g then [search_value s] else [])"
proof (induction g)
  case 0
  show ?case using assms by (simp add: run_wait_0)
next
  case (Suc g)
  let ?t = "run regs (wait g) s"
  show ?case
  proof (cases "due \<le> now s + g")
    case True
    with Suc have "timeout ?t = None" by simp
    from tick_idle [OF this] Suc True show ?thesis by (simp add: run_wait_Suc)
  next
    case False
    with Suc have "timeout ?t = Some (f, due)" by simp
    from tick_pending [OF this] Suc False show ?thesis by (simp add: run_wait_Suc)
  qed
qed

lemma step_keystroke:
  assumes "handlers regs (Element ''search'') ''input'' = [Debounced HandleSearch 500]"
  shows "step regs (keystroke v) s =
           s\<lparr>search_value := v, timeout := Some (HandleSearch, now s + 500)\<rparr>"
  using assms by (simp add: keystroke_def dispatch_def invoke_caught_def debounced_def)

lemma keystroke_then_wait:
  assumes "handlers regs (Element ''search'') ''input'' = [Debounced HandleSearch 500]"
  shows "now (run regs (keystroke v # wait g) s) = now s + g \<and>
         search_value (run regs (keystroke v # wait g) s) = v \<and>
         timeout (run regs (keystroke v # wait g) s) =
           (if 500 \<le> g then None else Some (HandleSearch, now s + 500)) \<and>
         searches (run regs (keystroke v # wait g) s) =
           searches s @ (if 500 \<le> g then [v] else [])"
  using wait_pending [of "step regs (keystroke v) s" HandleSearch "now s + 500" regs g]
  by (simp add: run_Cons step_keystroke [OF assms] searches_upd)

lemma typing_state:
  assumes "handlers regs (Element ''search'') ''input'' = [Debounced HandleSearch 500]"
  shows "\<exists>xs. searches (run regs (typing v ks) s) = searches s @ xs \<and>
           length xs = length (filter (\<lambda>(gap, text). 500 \<le> gap) ks) \<and>
           search_value (run regs (typing v ks) s) = last (v # map snd ks) \<and>
           timeout (run regs (typing v ks) s) =
             Some (HandleSearch, now (run regs (typing v ks) s) + 500)"
proof (induction ks arbitrary: v s)
  case Nil
  show ?case by (simp add: run_Cons run_Nil step_keystroke [OF assms] searches_upd)
next
  case (Cons k ks)
  obtain g w where k: "k = (g, w)" by (cases k)
  let ?t = "run regs (keystroke v # wait g) s"
  have run: "run regs (typing v (k # ks)) s = run regs (typing w ks) ?t"
    by (simp add: k run_Cons run_append)
  from Cons [of w ?t] obtain xs where
    xs: "searches (run regs (typing w ks) ?t) = searches ?t @ xs"
      "length xs = length (filter (\<lambda>(gap, text). 500 \<le> gap) ks)"
      "search_value (run regs (typing w ks) ?t) = last (w # map snd ks)"
      "timeout (run regs (typing w ks) ?t) =
         Some (HandleSearch, now (run regs (typing w ks) ?t) + 500)"
    by blast
  from keystroke_then_wait [OF assms, of v g s]
  have t: "searches ?t = searches s @ (if 500 \<le> g then [v] else [])" by simp
  show ?case
  proof (intro exI conjI)
    show "searches (run regs (typing v (k # ks)) s) =
            searches s @ ((if 500 \<le> g then [v] else []) @ xs)"
      unfolding run xs(1) t by simp
    show "length ((if 500 \<le> g then [v] else []) @ xs) =
            length (filter (\<lambda>(gap, text). 500 \<le> gap) (k # ks))"
      by (simp add: k xs(2))
    show "search_value (run regs (typing v (k # ks)) s) = last (v # map snd (k # ks))"
      unfolding run xs(3) by (simp add: k)
    show "timeout (run regs (typing v (k # ks)) s) =
            Some (HandleSearch, now (run regs (typing v (k # ks)) s) + 500)"
      unfolding run xs(4) by simp
  qed
qed

lemma typing_append:
  "typing v (before @ (gap, w) # after) = typing v before @ wait gap @ typing w after"
  by (induction before arbitrary: v) auto

lemma typing_then_wait:
  assumes "handlers regs (Element ''search'') ''input'' = [Debounced HandleSearch 500]"
  shows "\<exists>xs. searches (run regs (typing v ks @ wait q) s) =
             searches s @ xs @ (if 500 \<le> q then [last (v # map snd ks)] else []) \<and>
           length xs = length (filter (\<lambda>(gap, text). 500 \<le> gap) ks)"
proof -
  let ?t = "run regs (typing v ks) s"
  from typing_state [OF assms, of v ks s] obtain xs where
    xs: "searches ?t = searches s @ xs"
      "length xs = length (filter (\<lambda>(gap, text). 500 \<le> gap) ks)"
      "search_value ?t = last (v # map snd ks)"
      "timeout ?t = Some (HandleSearch, now ?t + 500)"
    by blast
  from wait_pending [OF xs(4), of regs q]
  have "searches (run regs (wait q) ?t) =
          searches ?t @ (if 500 \<le> q then [search_value ?t] else [])" by simp
  with xs show ?thesis by (simp add: run_append)
qed

text \<open>
  C6.  The page has the search box.  Keystrokes follow one another less than 500
  milliseconds apart, and then nothing is typed for \<open>q\<close> milliseconds.  As long as \<open>q\<close> is
  below 500 no search has fired, each keystroke having restarted the timer; from 500 on
  exactly one search has fired, for the text the last keystroke left in the box.
\<close>

theorem debounce_single_search:
  assumes "app_js doc = Inr regs" and "''search'' \<in> set doc"
    and "\<forall>(gap, text)\<in>set ks. gap < 500"
  shows "searches (run regs (typing v ks @ wait q) s) =
           searches s @ (if 500 \<le> q then [last (v # map snd ks)] else [])"
proof -
  have h: "handlers regs (Element ''search'') ''input'' = [Debounced HandleSearch 500]"
    using assms(1,2) by (simp add: handlers_search)
  have "filter (\<lambda>(gap, text). 500 \<le> gap) ks = []"
    using assms(3) by (auto simp: filter_empty_conv)
  with typing_then_wait [OF h, of v ks q s] show ?thesis by auto
qed

theorem debounce_single_search_witness:
  "app_js [''search''] =
     Inr [(Window, ''scroll'', On_scroll), (Socket, ''connect'', On_connect),
          (Socket, ''new_blobs'', On_new_blobs),
          (Element ''search'', ''input'', Debounced HandleSearch 500)] \<and>
   ''search'' \<in> set [''search''] \<and>
   searches (run [(Window, ''scroll'', On_scroll), (Socket, ''connect'', On_connect),
                  (Socket, ''new_blobs'', On_new_blobs),
                  (Element ''search'', ''input'', Debounced HandleSearch 500)]
               (typing ''b'' [(120, ''bl''), (499, ''blo'')] @ wait 500)
               (init_state :: nat state)) = [''blo''] \<and>
   searches (run [(Window, ''scroll'', On_scroll), (Socket, ''connect'', On_connect),
                  (Socket, ''new_blobs'', On_new_blobs),
                  (Element ''search'', ''input'', Debounced HandleSearch 500)]
               (typing ''b'' [(120, ''bl''), (499, ''blo'')] @ wait 499)
               (init_state :: nat state)) = []"
proof -
  have d: "''search'' \<in> set [''search'']" by simp
  have g: "\<forall>(gap, text)\<in>set [(120 :: nat, ''bl''), (499, ''blo'')]. gap < 500" by simp
  have n: "searches (init_state :: nat state) = []" by (simp add: searches_def init_state_def)
  from debounce_single_search [OF app_js_search_page d g, of "''b''" 500 "init_state :: nat state"]
    debounce_single_search [OF app_js_search_page d g, of "''b''" 499 "init_state :: nat state"]
    app_js_search_page n
  show ?thesis by simp
qed

text \<open>
  C7.  The page has the search box.  Somewhere in a sequence of keystrokes two
  consecutive keystrokes are at least 500 milliseconds apart, and the typing ends with
  at least 500 quiet milliseconds.  Then two separate searches fire for the two sides
  of that gap: one for the text in the box when the gap began, and a later one for the
  text the last keystroke left.  The other searches are one for each further gap of at
  least 500 milliseconds, so that with no further such gap exactly these two fire.
\<close>

theorem debounce_gap_separate_searches:
  assumes "app_js doc = Inr regs" and "''search'' \<in> set doc"
    and "500 \<le> gap" and "500 \<le> q"
  shows "\<exists>xs ys.
           searches (run regs (typing v (before @ (gap, w) # after) @ wait q) s) =
             searches s @ xs @ [last (v # map snd before)] @ ys @ [last (w # map snd after)] \<and>
           length xs = length (filter (\<lambda>(gap, text). 500 \<le> gap) before) \<and>
           length ys = length (filter (\<lambda>(gap, text). 500 \<le> gap) after)"
proof -
  have h: "handlers regs (Element ''search'') ''input'' = [Debounced HandleSearch 500]"
    using assms(1,2) by (simp add: handlers_search)
  let ?t = "run regs (typing v before @ wait gap) s"
  have run: "run regs (typing v (before @ (gap, w) # after) @ wait q) s =
               run regs (typing w after @ wait q) ?t"
    by (simp add: typing_append run_append)
  from typing_then_wait [OF h, of v before gap s] assms(3) obtain xs where
    xs: "searches ?t = searches s @ xs @ [last (v # map snd before)]"
      "length xs = length (filter (\<lambda>(gap, text). 500 \<le> gap) before)"
    by auto
  from typing_then_wait [OF h, of w after q ?t] assms(4) obtain ys where
    ys: "searches (run regs (typing w after @ wait q) ?t) =
           searches ?t @ ys @ [last (w # map snd after)]"
      "length ys = length (filter (\<lambda>(gap, text). 500 \<le> gap) after)"
    by auto
  show ?thesis
    by (intro exI [of _ xs] exI [of _ ys]) (simp add: run xs ys)
qed

theorem debounce_gap_separate_searches_witness:
  "app_js [''search''] =
     Inr [(Window, ''scroll'', On_scroll), (Socket, ''connect'', On_connect),
          (Socket, ''new_blobs'', On_new_blobs),
          (Element ''search'', ''input'', Debounced HandleSearch 500)] \<and>
   ''search'' \<in> set [''search''] \<and> (500 :: nat) \<le> 500 \<and> (500 :: nat) \<le> 650 \<and>
   searches (run [(Window, ''scroll'', On_scroll), (Socket, ''connect'', On_connect),
                  (Socket, ''new_blobs'', On_new_blobs),
                  (Element ''search'', ''input'', Debounced HandleSearch 500)]
               (typing ''b'' ([(120, ''bl'')] @ (500, ''blo'') # [(300, ''blob'')]) @ wait 650)
               (init_state :: nat state)) = [''bl'', ''blob'']"
proof -
  have d: "''search'' \<in> set [''search'']" by simp
  have n: "searches (init_state :: nat state) = []" by (simp add: searches_def init_state_def)
  from debounce_gap_separate_searches [OF app_js_search_page d, of 500 650 "''b''"
      "[(120, ''bl'')]" "''blo''" "[(300, ''blob'')]" "init_state :: nat state"]
    app_js_search_page n
  show ?thesis by auto
qed

end
